theory Spec2Isabelle
  imports Main "HOL-Library.Sublist"
begin

section \<open>The recursive geohash filler of hashfill.go\<close>

text \<open>
  The file \<^verbatim>\<open>hashfill.go\<close> fills a polygon with geohash cells. A cell is a Go
  \<^verbatim>\<open>string\<close> over the 32 symbols of the geohash alphabet; \<^verbatim>\<open>len\<close> counts its
  bytes, so a cell is a \<^typ>\<open>string\<close> here and its precision is \<^const>\<open>length\<close>.
  The polygon is opaque (\<open>'p\<close>): it is only handed to the two predicates.
  Go's \<^verbatim>\<open>int\<close> is modelled by \<^typ>\<open>int\<close>: the code only compares lengths with
  \<^verbatim>\<open>maxPrecision\<close> and \<^verbatim>\<open>maxHashes\<close>, and no arithmetic that could wrap is done.
\<close>

subsection \<open>Data\<close>

text \<open>
  \<^verbatim>\<open>geohashBase32Alphabet\<close> is a slice of 32 strings of one character each, in this
  order; the list below is the list of these one-character strings.
\<close>

definition geohashBase32Alphabet :: "string list" where
  "geohashBase32Alphabet = map (\<lambda>c. [c]) ''0123456789bcdefghjkmnpqrstuvwxyz''"

text \<open>\<^verbatim>\<open>type FillMode int\<close> with its two constants.\<close>

type_synonym FillMode = int

definition FillIntersects :: FillMode where
  "FillIntersects = 1"

definition FillContains :: FillMode where
  "FillContains = 2"

text \<open>
  The value of Go's \<^verbatim>\<open>error\<close> that the functions return: either the error a predicate
  returned, carried as it is (\<open>'e\<close> is the collaborator's error), or the one the file
  builds itself with
  \<^verbatim>\<open>fmt.Errorf("hash limit at %d, but already have: %d", maxHashes, len(...))\<close>,
  kept as its two arguments.
\<close>

datatype 'e error = Predicate 'e | HashLimit int int

text \<open>
  \<^verbatim>\<open>Container.Contains\<close> and \<^verbatim>\<open>Intersector.Intersects\<close> return \<^verbatim>\<open>(bool, error)\<close>.
  They are taken as pure functions of the polygon and the cell.
\<close>

type_synonym ('p, 'e) predicate = "'p \<Rightarrow> string \<Rightarrow> 'e + bool"

record ('p, 'e) RecursiveFiller =
  maxPrecision :: int
  fixedPrecision :: bool
  container :: "('p, 'e) predicate"
  intersector :: "('p, 'e) predicate"

text \<open>
  A call returns \<^verbatim>\<open>([]string, error)\<close>, and every \<^verbatim>\<open>return\<close> with an error returns
  the slice \<^verbatim>\<open>nil\<close>: the result is a sum, \<open>Inl\<close> the error. A \<^verbatim>\<open>nil\<close> slice and an empty
  one are both \<open>[]\<close>. The recursion of the source need not end (a cell longer than
  \<^verbatim>\<open>maxPrecision\<close> never meets the test \<^verbatim>\<open>len(hash) == f.maxPrecision\<close>), so the
  recursive functions take a bound on the depth of the calls and return \<open>None\<close> when it
  is used up.
\<close>

type_synonym 'e result = "('e error + string list) option"

subsection \<open>The loop over the 32 children\<close>

text \<open>
  The loops of \<^verbatim>\<open>extendHashToMaxPrecision\<close> (lines 119 to 131) and of
  \<^verbatim>\<open>computeVariableHashes\<close> (lines 166 to 178) are the same statements around a
  different recursive call, here the parameter \<open>call\<close>. \<open>hashes\<close> is the accumulator,
  the last argument the symbols still to visit.
\<close>

fun loopChildren ::
  "(string \<Rightarrow> 'e result) \<Rightarrow> int \<Rightarrow> string \<Rightarrow> string list \<Rightarrow> string list \<Rightarrow> 'e result" where
  "loopChildren call maxHashes hash hashes [] = Some (Inr hashes)"
| "loopChildren call maxHashes hash hashes (next # rest) =
     (case call (hash @ next) of
        None \<Rightarrow> None
      | Some (Inl err) \<Rightarrow> Some (Inl err)
      | Some (Inr out) \<Rightarrow>
          if int (length out) > maxHashes
          then Some (Inl (HashLimit maxHashes (int (length out))))
          else if int (length (hashes @ out)) > maxHashes
          then Some (Inl (HashLimit maxHashes (int (length (hashes @ out)))))
          else loopChildren call maxHashes hash (hashes @ out) rest)"

subsection \<open>extendHashToMaxPrecision\<close>

fun extendHashToMaxPrecision ::
  "nat \<Rightarrow> ('p, 'e) RecursiveFiller \<Rightarrow> string \<Rightarrow> int \<Rightarrow> 'e result" where
  "extendHashToMaxPrecision 0 f hash maxHashes = None"
| "extendHashToMaxPrecision (Suc depth) f hash maxHashes =
     (if int (length hash) = maxPrecision f then Some (Inr [hash])
      else loopChildren (\<lambda>h. extendHashToMaxPrecision depth f h maxHashes)
             maxHashes hash [] geohashBase32Alphabet)"

subsection \<open>computeVariableHashes\<close>

fun computeVariableHashes ::
  "nat \<Rightarrow> ('p, 'e) RecursiveFiller \<Rightarrow> 'p \<Rightarrow> FillMode \<Rightarrow> string \<Rightarrow> int \<Rightarrow> 'e result" where
  "computeVariableHashes 0 f fence mode hash maxHashes = None"
| "computeVariableHashes (Suc depth) f fence mode hash maxHashes =
     (case container f fence hash of
        Inl err \<Rightarrow> Some (Inl (Predicate err))
      | Inr cont \<Rightarrow>
          if cont then Some (Inr [hash])
          else (case intersector f fence hash of
             Inl err \<Rightarrow> Some (Inl (Predicate err))
           | Inr inter' \<Rightarrow>
               if \<not> inter' then Some (Inr [])
               else if int (length hash) = maxPrecision f
               then (if mode = FillIntersects then Some (Inr [hash]) else Some (Inr []))
               else loopChildren (\<lambda>h. computeVariableHashes depth f fence mode h maxHashes)
                      maxHashes hash [] geohashBase32Alphabet))"

subsection \<open>Fill\<close>

text \<open>The \<^verbatim>\<open>for _, hash := range hashes\<close> loop of \<^verbatim>\<open>Fill\<close> (lines 100 to 109).\<close>

fun fillLoop ::
  "nat \<Rightarrow> ('p, 'e) RecursiveFiller \<Rightarrow> int \<Rightarrow> string list \<Rightarrow> string list \<Rightarrow> 'e result" where
  "fillLoop depth f maxHashes out [] = Some (Inr out)"
| "fillLoop depth f maxHashes out (hash # rest) =
     (case extendHashToMaxPrecision depth f hash maxHashes of
        None \<Rightarrow> None
      | Some (Inl err) \<Rightarrow> Some (Inl err)
      | Some (Inr extended) \<Rightarrow>
          if int (length (out @ extended)) > maxHashes
          then Some (Inl (HashLimit maxHashes (int (length (out @ extended)))))
          else fillLoop depth f maxHashes (out @ extended) rest)"

definition Fill ::
  "nat \<Rightarrow> ('p, 'e) RecursiveFiller \<Rightarrow> 'p \<Rightarrow> FillMode \<Rightarrow> int \<Rightarrow> 'e result" where
  "Fill depth f fence mode maxHashes =
     (case computeVariableHashes depth f fence mode [] maxHashes of
        None \<Rightarrow> None
      | Some (Inl err) \<Rightarrow> Some (Inl err)
      | Some (Inr hashes) \<Rightarrow>
          if \<not> fixedPrecision f then Some (Inr hashes)
          else (let out = [] :: string list in
            if int (length out) > maxHashes
            then Some (Inl (HashLimit maxHashes (int (length out))))
            else fillLoop depth f maxHashes out hashes))"

subsection \<open>Fill without the check before the loop\<close>

text \<open>
  The function that the specification compares \<^verbatim>\<open>Fill\<close> with: \<^verbatim>\<open>Fill\<close> as in the source,
  with the \<^verbatim>\<open>if len(out) > maxHashes\<close> of lines 97 to 99 taken out and nothing else
  changed.
\<close>

definition FillWithoutPrecheck ::
  "nat \<Rightarrow> ('p, 'e) RecursiveFiller \<Rightarrow> 'p \<Rightarrow> FillMode \<Rightarrow> int \<Rightarrow> 'e result" where
  "FillWithoutPrecheck depth f fence mode maxHashes =
     (case computeVariableHashes depth f fence mode [] maxHashes of
        None \<Rightarrow> None
      | Some (Inl err) \<Rightarrow> Some (Inl err)
      | Some (Inr hashes) \<Rightarrow>
          if \<not> fixedPrecision f then Some (Inr hashes)
          else fillLoop depth f maxHashes [] hashes)"

subsection \<open>Example predicates\<close>

text \<open>
  Predicates for the examples: \<open>tablePredicate cells\<close> is true of the listed cells and of
  no other, for every polygon, and never fails; \<open>failingAt bad e cells\<close> is the same,
  except that it returns the error \<open>e\<close> for the cell \<open>bad\<close>.
\<close>

definition tablePredicate :: "string list \<Rightarrow> (unit, string) predicate" where
  "tablePredicate cells = (\<lambda>fence hash. Inr (hash \<in> set cells))"

definition failingAt :: "string \<Rightarrow> string \<Rightarrow> string list \<Rightarrow> (unit, string) predicate" where
  "failingAt bad e cells = (\<lambda>fence hash. if hash = bad then Inl e else Inr (hash \<in> set cells))"

subsection \<open>Prefix-disjoint lists of cells\<close>

text \<open>
  A cell is an ancestor of the cells it is a prefix of. A list of cells is
  prefix-disjoint when no cell occurs twice and none is a prefix of another.
\<close>

definition prefixDisjoint :: "string list \<Rightarrow> bool" where
  "prefixDisjoint cells \<longleftrightarrow>
     distinct cells \<and> (\<forall>x \<in> set cells. \<forall>y \<in> set cells. prefix x y \<longrightarrow> x = y)"

subsection \<open>The descendants of a cell at a given distance\<close>

text \<open>
  What the specification says the expansion returns: the cell with every sequence of
  \<open>k\<close> alphabet symbols appended, the sequences enumerated depth first in alphabet
  order. \<^const>\<open>product_lists\<close> of \<open>k\<close> copies of the alphabet lists exactly these
  sequences, the first symbol varying slowest.
\<close>

definition descendantsAt :: "nat \<Rightarrow> string \<Rightarrow> string list" where
  "descendantsAt k h =
     map (\<lambda>symbols. h @ concat symbols) (product_lists (replicate k geohashBase32Alphabet))"

subsection \<open>The cells that a search calls the predicates on\<close>

text \<open>
  \<open>searchReaches f fence mode maxHashes depth c path\<close>: a call of
  \<^verbatim>\<open>computeVariableHashes\<close> on the cell \<open>c\<close>, with the depth bound \<open>depth\<close>, makes (directly
  or through the calls it makes) a call on the cell \<open>c @ path\<close>, with a depth bound that
  is not used up. Following lines 138 to 167: the call on \<open>c\<close> reaches its loop (the cell
  is not contained, intersects, and is shorter or longer than \<^verbatim>\<open>maxPrecision\<close>), and the
  loop gets as far as the next symbol \<open>ch\<close> of the path, that is, its iterations for
  the symbols before \<open>ch\<close> all go through without a \<^verbatim>\<open>return\<close>.
\<close>

fun searchReaches ::
  "('p, 'e) RecursiveFiller \<Rightarrow> 'p \<Rightarrow> FillMode \<Rightarrow> int \<Rightarrow> nat \<Rightarrow> string \<Rightarrow> string \<Rightarrow> bool" where
  "searchReaches f fence mode maxHashes 0 c path = False"
| "searchReaches f fence mode maxHashes (Suc depth) c [] = True"
| "searchReaches f fence mode maxHashes (Suc depth) c (ch # path) =
     (container f fence c = Inr False \<and> intersector f fence c = Inr True \<and>
      int (length c) \<noteq> maxPrecision f \<and> [ch] \<in> set geohashBase32Alphabet \<and>
      (case loopChildren (\<lambda>h. computeVariableHashes depth f fence mode h maxHashes)
              maxHashes c [] (takeWhile (\<lambda>s. s \<noteq> [ch]) geohashBase32Alphabet) of
         Some (Inr hashes) \<Rightarrow> True
       | _ \<Rightarrow> False) \<and>
      searchReaches f fence mode maxHashes depth (c @ [ch]) path)"

section \<open>Properties\<close>

subsection \<open>The alphabet, the loop and the depth bound\<close>

text \<open>
  The 32 symbols are distinct strings of one byte each. A result that one depth bound
  gives is the result that every larger bound gives, so \<open>None\<close> only ever means that
  the bound was too small.
\<close>

lemma alphabet_length: "s \<in> set geohashBase32Alphabet \<Longrightarrow> length s = 1"
  unfolding geohashBase32Alphabet_def by auto

lemma alphabet_distinct: "distinct geohashBase32Alphabet"
  unfolding geohashBase32Alphabet_def by simp

lemma alphabet_size: "length geohashBase32Alphabet = 32"
  unfolding geohashBase32Alphabet_def by simp

lemma alphabet_nonempty: "geohashBase32Alphabet \<noteq> []"
  unfolding geohashBase32Alphabet_def by simp

lemma loopChildren_mono:
  assumes "loopChildren call1 cap h acc syms = Some r"
    and "\<And>s x. s \<in> set syms \<Longrightarrow> call1 (h @ s) = Some x \<Longrightarrow> call2 (h @ s) = Some x"
  shows "loopChildren call2 cap h acc syms = Some r"
  using assms
proof (induction syms arbitrary: acc)
  case Nil
  then show ?case by simp
next
  case (Cons s syms)
  from Cons.prems(1) obtain x where x: "call1 (h @ s) = Some x"
    by (auto split: option.splits)
  then have y: "call2 (h @ s) = Some x" using Cons.prems(2) by simp
  show ?case
  proof (cases x)
    case (Inl err)
    with x Cons.prems(1) have "r = Inl err" by simp
    with y Inl show ?thesis by simp
  next
    case (Inr out)
    show ?thesis
    proof (cases "int (length out) > cap \<or> int (length (acc @ out)) > cap")
      case True
      with x y Inr Cons.prems(1) show ?thesis by auto
    next
      case False
      with x Inr Cons.prems(1) have "loopChildren call1 cap h (acc @ out) syms = Some r" by simp
      then have "loopChildren call2 cap h (acc @ out) syms = Some r"
        using Cons.IH Cons.prems(2) by simp
      with False y Inr show ?thesis by simp
    qed
  qed
qed

lemma loopChildren_total:
  assumes "\<And>s. s \<in> set syms \<Longrightarrow> call (h @ s) \<noteq> None"
  shows "loopChildren call cap h acc syms \<noteq> None"
  using assms
proof (induction syms arbitrary: acc)
  case Nil
  then show ?case by simp
next
  case (Cons s syms)
  then obtain x where x: "call (h @ s) = Some x" by fastforce
  from Cons have "\<And>acc'. loopChildren call cap h acc' syms \<noteq> None" by simp
  with x show ?case by (cases x) auto
qed

lemma computeVariableHashes_mono:
  "computeVariableHashes n f fence mode c cap = Some r \<Longrightarrow> n \<le> m \<Longrightarrow>
   computeVariableHashes m f fence mode c cap = Some r"
proof (induction n arbitrary: m c r)
  case 0
  then show ?case by simp
next
  case (Suc n)
  from Suc.prems(2) obtain m' where m: "m = Suc m'" and le: "n \<le> m'"
    by (cases m) auto
  show ?case
  proof (cases "container f fence c = Inr False \<and> intersector f fence c = Inr True
      \<and> int (length c) \<noteq> maxPrecision f")
    case True
    with Suc.prems(1) have
      "loopChildren (\<lambda>h. computeVariableHashes n f fence mode h cap) cap c []
         geohashBase32Alphabet = Some r" by simp
    then have
      "loopChildren (\<lambda>h. computeVariableHashes m' f fence mode h cap) cap c []
         geohashBase32Alphabet = Some r"
      by (rule loopChildren_mono) (use Suc.IH le in blast)
    with True m show ?thesis by simp
  next
    case False
    with Suc.prems(1) m show ?thesis
      by (auto split: sum.splits if_splits)
  qed
qed

lemma computeVariableHashes_total:
  "int (length c) \<le> maxPrecision f \<Longrightarrow> nat (maxPrecision f - int (length c)) < n \<Longrightarrow>
   computeVariableHashes n f fence mode c cap \<noteq> None"
proof (induction n arbitrary: c)
  case 0
  then show ?case by simp
next
  case (Suc n)
  show ?case
  proof (cases "int (length c) = maxPrecision f")
    case True
    then show ?thesis by (simp split: sum.splits)
  next
    case False
    have "computeVariableHashes n f fence mode (c @ s) cap \<noteq> None"
      if "s \<in> set geohashBase32Alphabet" for s
    proof -
      from that have "length (c @ s) = Suc (length c)" by (simp add: alphabet_length)
      with Suc.prems False show ?thesis by (intro Suc.IH) auto
    qed
    then have "loopChildren (\<lambda>h. computeVariableHashes n f fence mode h cap) cap c []
         geohashBase32Alphabet \<noteq> None"
      by (rule loopChildren_total)
    with False show ?thesis by (auto split: sum.splits)
  qed
qed

subsection \<open>A cell that the polygon contains is returned as it is\<close>

text \<open>
  C10. When \<^verbatim>\<open>Contains\<close> is true of the starting cell, \<^verbatim>\<open>computeVariableHashes\<close> returns
  that one cell at line 143, before any comparison with \<^verbatim>\<open>maxHashes\<close>. For the root
  cell and variable precision, \<^verbatim>\<open>Fill\<close> therefore returns the one-element list for
  every value of \<^verbatim>\<open>maxHashes\<close>, zero and negative ones too.
\<close>

theorem Fill_root_contained:
  assumes "container f fence c = Inr True"
  shows "computeVariableHashes (Suc depth) f fence mode c maxHashes = Some (Inr [c]) \<and>
    (c = [] \<and> \<not> fixedPrecision f \<longrightarrow>
       Fill (Suc depth) f fence mode maxHashes = Some (Inr [c]))"
proof -
  have search: "computeVariableHashes (Suc depth) f fence mode c maxHashes = Some (Inr [c])"
    using assms by simp
  then have "Fill (Suc depth) f fence mode maxHashes = Some (Inr [c])"
    if "c = []" "\<not> fixedPrecision f"
    using that unfolding Fill_def by simp
  with search show ?thesis by blast
qed

theorem Fill_root_contained_witness:
  "container \<lparr>maxPrecision = 6, fixedPrecision = False, container = tablePredicate [[]],
       intersector = tablePredicate [[]]\<rparr> () [] = Inr True \<and>
   Fill (Suc 0) \<lparr>maxPrecision = 6, fixedPrecision = False, container = tablePredicate [[]],
       intersector = tablePredicate [[]]\<rparr> () FillContains (- 3) = Some (Inr [[]])"
proof -
  let ?f = "\<lparr>maxPrecision = 6, fixedPrecision = False, container = tablePredicate [[]],
       intersector = tablePredicate [[]]\<rparr>"
  have c: "container ?f () [] = Inr True" by (simp add: tablePredicate_def)
  from Fill_root_contained [OF c, of 0 FillContains "- 3"] c show ?thesis by simp
qed

subsection \<open>The search ends\<close>

text \<open>
  C9. With \<^verbatim>\<open>maxPrecision\<close> at least 0 and a starting cell no longer than
  \<^verbatim>\<open>maxPrecision\<close>, the search returns, whatever the polygon and the predicates answer:
  every depth bound above \<^verbatim>\<open>maxPrecision - len(c)\<close> gives one and the same result.
  Each recursive call is on a cell one symbol longer, and a cell whose length equals
  \<^verbatim>\<open>maxPrecision\<close> is decided by the call itself, with no recursive call (depth bound 1).
\<close>

theorem computeVariableHashes_terminates:
  assumes "0 \<le> maxPrecision f" and "int (length c) \<le> maxPrecision f"
  shows "(\<exists>r. \<forall>n > nat (maxPrecision f - int (length c)).
            computeVariableHashes n f fence mode c maxHashes = Some r) \<and>
    (\<forall>s \<in> set geohashBase32Alphabet. length (c @ s) = Suc (length c)) \<and>
    (int (length c) = maxPrecision f \<longrightarrow>
       (\<exists>r. computeVariableHashes (Suc 0) f fence mode c maxHashes = Some r))"
proof -
  define d where "d = nat (maxPrecision f - int (length c))"
  have "d < Suc d" by simp
  with assms(2) have "computeVariableHashes (Suc d) f fence mode c maxHashes \<noteq> None"
    unfolding d_def by (rule computeVariableHashes_total)
  then obtain r where r: "computeVariableHashes (Suc d) f fence mode c maxHashes = Some r"
    by blast
  have all: "computeVariableHashes n f fence mode c maxHashes = Some r" if "d < n" for n
  proof -
    from that have "Suc d \<le> n" by simp
    with r show ?thesis by (rule computeVariableHashes_mono)
  qed
  then have first: "\<exists>r. \<forall>n > d. computeVariableHashes n f fence mode c maxHashes = Some r"
    by blast
  have one: "\<exists>r. computeVariableHashes (Suc 0) f fence mode c maxHashes = Some r"
    if "int (length c) = maxPrecision f"
  proof -
    from that have "d < Suc 0" unfolding d_def by simp
    then show ?thesis using all by blast
  qed
  have step: "\<forall>s \<in> set geohashBase32Alphabet. length (c @ s) = Suc (length c)"
    by (simp add: alphabet_length)
  from first one step show ?thesis unfolding d_def by (intro conjI impI)
qed

theorem computeVariableHashes_terminates_witness:
  "(\<exists>r. \<forall>n > 1. computeVariableHashes n
       \<lparr>maxPrecision = 1, fixedPrecision = False, container = tablePredicate [],
         intersector = tablePredicate [[], ''9'']\<rparr> () FillIntersects [] 40 = Some r) \<and>
   (\<exists>r. computeVariableHashes (Suc 0)
       \<lparr>maxPrecision = 1, fixedPrecision = False, container = tablePredicate [],
         intersector = tablePredicate [[], ''9'']\<rparr> () FillIntersects ''9'' 40 = Some r) \<and>
   length ([] @ ''9'') = Suc (length ([] :: string))"
proof -
  let ?f = "\<lparr>maxPrecision = 1, fixedPrecision = False, container = tablePredicate [],
         intersector = tablePredicate [[], ''9'']\<rparr>"
  have h1: "0 \<le> maxPrecision ?f" by simp
  have h2: "int (length ([]::string)) \<le> maxPrecision ?f" by simp
  have d: "nat (maxPrecision ?f - int (length ([]::string))) = 1" by simp
  from computeVariableHashes_terminates [OF h1 h2, of "()" FillIntersects 40]
  have "\<exists>r. \<forall>n > nat (maxPrecision ?f - int (length ([]::string))).
     computeVariableHashes n ?f () FillIntersects [] 40 = Some r"
    by (rule conjunct1)
  then have root: "\<exists>r. \<forall>n > 1. computeVariableHashes n ?f () FillIntersects [] 40 = Some r"
    unfolding d .
  have g2: "int (length ''9'') \<le> maxPrecision ?f" by simp
  have g3: "int (length ''9'') = maxPrecision ?f" by simp
  from computeVariableHashes_terminates [OF h1 g2, of "()" FillIntersects 40] g3
  have leaf: "\<exists>r. computeVariableHashes (Suc 0) ?f () FillIntersects ''9'' 40 = Some r"
    by blast
  from root leaf show ?thesis by simp
qed

subsection \<open>The case analysis of the search\<close>

lemma FillModes_differ: "FillContains \<noteq> FillIntersects"
  by (simp add: FillContains_def FillIntersects_def)

lemma loopChildren_within_cap:
  assumes "\<And>s. s \<in> set syms \<Longrightarrow> call (h @ s) = Some (Inr (r s))"
    and "int (length (acc @ concat (map r syms))) \<le> cap"
  shows "loopChildren call cap h acc syms = Some (Inr (acc @ concat (map r syms)))"
  using assms
proof (induction syms arbitrary: acc)
  case Nil
  then show ?case by simp
next
  case (Cons s syms)
  have call: "call (h @ s) = Some (Inr (r s))" using Cons.prems(1) by simp
  have small: "\<not> int (length (r s)) > cap" "\<not> int (length (acc @ r s)) > cap"
    using Cons.prems(2) by simp_all
  have "loopChildren call cap h ((acc @ r s)) syms
      = Some (Inr ((acc @ r s) @ concat (map r syms)))"
    using Cons.prems by (intro Cons.IH) simp_all
  with call small show ?case by simp
qed

lemma loopChildren_over_cap:
  assumes "\<And>s. s \<in> set syms \<Longrightarrow> call (h @ s) = Some (Inr (r s))"
    and "int (length (acc @ concat (map r syms))) > cap"
    and "syms \<noteq> []"
  shows "\<exists>k > cap. loopChildren call cap h acc syms = Some (Inl (HashLimit cap k))"
  using assms
proof (induction syms arbitrary: acc)
  case Nil
  then show ?case by simp
next
  case (Cons s syms)
  have call: "call (h @ s) = Some (Inr (r s))" using Cons.prems(1) by simp
  show ?case
  proof (cases "int (length (r s)) > cap \<or> int (length (acc @ r s)) > cap")
    case True
    with call show ?thesis by auto
  next
    case False
    then have step: "loopChildren call cap h acc (s # syms)
        = loopChildren call cap h (acc @ r s) syms"
      using call by simp
    have "syms \<noteq> []"
    proof
      assume "syms = []"
      with Cons.prems(2) False show False by simp
    qed
    moreover have "int (length ((acc @ r s) @ concat (map r syms))) > cap"
      using Cons.prems(2) by simp
    ultimately have "\<exists>k > cap. loopChildren call cap h (acc @ r s) syms
        = Some (Inl (HashLimit cap k))"
      using Cons.prems(1) by (intro Cons.IH) simp_all
    with step show ?thesis by simp
  qed
qed

lemma loopChildren_no_call:
  "syms \<noteq> [] \<Longrightarrow> loopChildren (\<lambda>h. None) cap h acc syms = None"
  by (cases syms) simp_all

lemma subdivides_iff:
  "computeVariableHashes (Suc 0) f fence mode c cap = None \<longleftrightarrow>
   container f fence c = Inr False \<and> intersector f fence c = Inr True \<and>
   int (length c) \<noteq> maxPrecision f"
  by (auto simp: loopChildren_no_call alphabet_nonempty split: sum.splits)

text \<open>
  C1, as amended. With both predicates answering without error at the cell \<open>c\<close>, a call
  of \<^verbatim>\<open>computeVariableHashes\<close> on \<open>c\<close> returns \<open>[c]\<close> when \<^verbatim>\<open>Contains\<close> is true;
  otherwise the empty list when \<^verbatim>\<open>Intersects\<close> is false; otherwise, at length
  \<^verbatim>\<open>maxPrecision\<close>, \<open>[c]\<close> in mode \<^verbatim>\<open>FillIntersects\<close> and the empty list in mode
  \<^verbatim>\<open>FillContains\<close>; otherwise, when the searches of the 32 children return the lists
  \<open>r s\<close>, their concatenation in alphabet order if it has at most \<^verbatim>\<open>maxHashes\<close>
  elements, and the hash-limit error, with a count above \<^verbatim>\<open>maxHashes\<close>, if it has more.
\<close>

theorem computeVariableHashes_case_analysis:
  assumes "container f fence c = Inr cont" and "intersector f fence c = Inr inters"
  shows "(cont \<longrightarrow>
       computeVariableHashes (Suc depth) f fence mode c maxHashes = Some (Inr [c])) \<and>
    (\<not> cont \<and> \<not> inters \<longrightarrow>
       computeVariableHashes (Suc depth) f fence mode c maxHashes = Some (Inr [])) \<and>
    (\<not> cont \<and> inters \<and> int (length c) = maxPrecision f \<and> mode = FillIntersects \<longrightarrow>
       computeVariableHashes (Suc depth) f fence mode c maxHashes = Some (Inr [c])) \<and>
    (\<not> cont \<and> inters \<and> int (length c) = maxPrecision f \<and> mode = FillContains \<longrightarrow>
       computeVariableHashes (Suc depth) f fence mode c maxHashes = Some (Inr [])) \<and>
    (\<not> cont \<and> inters \<and> int (length c) \<noteq> maxPrecision f \<and>
     (\<forall>s \<in> set geohashBase32Alphabet.
        computeVariableHashes depth f fence mode (c @ s) maxHashes = Some (Inr (r s))) \<longrightarrow>
       (if int (length (concat (map r geohashBase32Alphabet))) \<le> maxHashes
        then computeVariableHashes (Suc depth) f fence mode c maxHashes
               = Some (Inr (concat (map r geohashBase32Alphabet)))
        else \<exists>k > maxHashes. computeVariableHashes (Suc depth) f fence mode c maxHashes
               = Some (Inl (HashLimit maxHashes k))))"
proof (intro conjI impI)
  assume "cont"
  with assms show "computeVariableHashes (Suc depth) f fence mode c maxHashes = Some (Inr [c])"
    by simp
next
  assume "\<not> cont \<and> \<not> inters"
  with assms show "computeVariableHashes (Suc depth) f fence mode c maxHashes = Some (Inr [])"
    by simp
next
  assume "\<not> cont \<and> inters \<and> int (length c) = maxPrecision f \<and> mode = FillIntersects"
  with assms show "computeVariableHashes (Suc depth) f fence mode c maxHashes = Some (Inr [c])"
    by simp
next
  assume "\<not> cont \<and> inters \<and> int (length c) = maxPrecision f \<and> mode = FillContains"
  with assms show "computeVariableHashes (Suc depth) f fence mode c maxHashes = Some (Inr [])"
    by (simp add: FillModes_differ)
next
  assume a: "\<not> cont \<and> inters \<and> int (length c) \<noteq> maxPrecision f \<and>
     (\<forall>s \<in> set geohashBase32Alphabet.
        computeVariableHashes depth f fence mode (c @ s) maxHashes = Some (Inr (r s)))"
  let ?call = "\<lambda>h. computeVariableHashes depth f fence mode h maxHashes"
  let ?all = "concat (map r geohashBase32Alphabet)"
  from a assms have loop: "computeVariableHashes (Suc depth) f fence mode c maxHashes
      = loopChildren ?call maxHashes c [] geohashBase32Alphabet"
    by simp
  from a have children: "\<And>s. s \<in> set geohashBase32Alphabet \<Longrightarrow> ?call (c @ s) = Some (Inr (r s))"
    by blast
  show "if int (length ?all) \<le> maxHashes
        then computeVariableHashes (Suc depth) f fence mode c maxHashes = Some (Inr ?all)
        else \<exists>k > maxHashes. computeVariableHashes (Suc depth) f fence mode c maxHashes
               = Some (Inl (HashLimit maxHashes k))"
  proof (cases "int (length ?all) \<le> maxHashes")
    case True
    then have "int (length ([] @ ?all)) \<le> maxHashes" by simp
    with children have "loopChildren ?call maxHashes c [] geohashBase32Alphabet
        = Some (Inr ([] @ ?all))"
      by (rule loopChildren_within_cap)
    with True loop show ?thesis by simp
  next
    case False
    then have "int (length ([] @ ?all)) > maxHashes" by simp
    with children have "\<exists>k > maxHashes. loopChildren ?call maxHashes c [] geohashBase32Alphabet
        = Some (Inl (HashLimit maxHashes k))"
      using alphabet_nonempty by (rule loopChildren_over_cap)
    with False loop show ?thesis by simp
  qed
qed

text \<open>
  The concatenation is not returned for every \<^verbatim>\<open>maxHashes\<close>: with the cap 0 the single
  contained child already exceeds it, and the call on the root fails.
\<close>

theorem computeVariableHashes_case_analysis_counterexample:
  "container \<lparr>maxPrecision = 1, fixedPrecision = False, container = tablePredicate [''9''],
       intersector = tablePredicate [[], ''9'']\<rparr> () [] = Inr False \<and>
   intersector \<lparr>maxPrecision = 1, fixedPrecision = False, container = tablePredicate [''9''],
       intersector = tablePredicate [[], ''9'']\<rparr> () [] = Inr True \<and>
   int (length ([] :: string)) \<noteq> 1 \<and>
   computeVariableHashes (Suc 0)
     \<lparr>maxPrecision = 1, fixedPrecision = False, container = tablePredicate [''9''],
       intersector = tablePredicate [[], ''9'']\<rparr> () FillContains ''9'' 0 = Some (Inr [''9'']) \<and>
   computeVariableHashes (Suc (Suc 0))
     \<lparr>maxPrecision = 1, fixedPrecision = False, container = tablePredicate [''9''],
       intersector = tablePredicate [[], ''9'']\<rparr> () FillContains [] 0
     = Some (Inl (HashLimit 0 1))"
  by (simp add: tablePredicate_def geohashBase32Alphabet_def)

theorem computeVariableHashes_case_analysis_witness:
  "computeVariableHashes (Suc 0)
     \<lparr>maxPrecision = 1, fixedPrecision = False, container = tablePredicate [''9''],
       intersector = tablePredicate [[], ''9'', ''b'']\<rparr> () FillContains ''9'' 5
     = Some (Inr [''9'']) \<and>
   computeVariableHashes (Suc 0)
     \<lparr>maxPrecision = 1, fixedPrecision = False, container = tablePredicate [''9''],
       intersector = tablePredicate [[], ''9'', ''b'']\<rparr> () FillContains ''c'' 5
     = Some (Inr []) \<and>
   computeVariableHashes (Suc 0)
     \<lparr>maxPrecision = 1, fixedPrecision = False, container = tablePredicate [''9''],
       intersector = tablePredicate [[], ''9'', ''b'']\<rparr> () FillIntersects ''b'' 5
     = Some (Inr [''b'']) \<and>
   computeVariableHashes (Suc 0)
     \<lparr>maxPrecision = 1, fixedPrecision = False, container = tablePredicate [''9''],
       intersector = tablePredicate [[], ''9'', ''b'']\<rparr> () FillContains ''b'' 5
     = Some (Inr []) \<and>
   computeVariableHashes (Suc (Suc 0))
     \<lparr>maxPrecision = 1, fixedPrecision = False, container = tablePredicate [''9''],
       intersector = tablePredicate [[], ''9'', ''b'']\<rparr> () FillIntersects [] 5
     = Some (Inr [''9'', ''b'']) \<and>
   (\<exists>k > 1. computeVariableHashes (Suc (Suc 0))
     \<lparr>maxPrecision = 1, fixedPrecision = False, container = tablePredicate [''9''],
       intersector = tablePredicate [[], ''9'', ''b'']\<rparr> () FillIntersects [] 1
     = Some (Inl (HashLimit 1 k)))"
proof -
  let ?f = "\<lparr>maxPrecision = 1, fixedPrecision = False, container = tablePredicate [''9''],
       intersector = tablePredicate [[], ''9'', ''b'']\<rparr>"
  let ?r = "\<lambda>s. if s = ''9'' \<or> s = ''b'' then [s] else []"
  have c9: "container ?f () ''9'' = Inr True" and i9: "intersector ?f () ''9'' = Inr True"
    and cc: "container ?f () ''c'' = Inr False" and ic: "intersector ?f () ''c'' = Inr False"
    and cb: "container ?f () ''b'' = Inr False" and ib: "intersector ?f () ''b'' = Inr True"
    and c: "container ?f () [] = Inr False" and i: "intersector ?f () [] = Inr True"
    by (simp_all add: tablePredicate_def)
  have total: "concat (map ?r geohashBase32Alphabet) = [''9'', ''b'']"
    by (simp add: geohashBase32Alphabet_def)
  have children: "\<forall>s \<in> set geohashBase32Alphabet.
      computeVariableHashes (Suc 0) ?f () FillIntersects ([] @ s) cap = Some (Inr (?r s))" for cap
    by (simp add: tablePredicate_def geohashBase32Alphabet_def FillIntersects_def)
  from computeVariableHashes_case_analysis [OF c9 i9, of 0 FillContains 5]
  have contained: "computeVariableHashes (Suc 0) ?f () FillContains ''9'' 5 = Some (Inr [''9''])"
    by simp
  from computeVariableHashes_case_analysis [OF cc ic, of 0 FillContains 5]
  have outside: "computeVariableHashes (Suc 0) ?f () FillContains ''c'' 5 = Some (Inr [])"
    by simp
  from computeVariableHashes_case_analysis [OF cb ib, of 0 FillIntersects 5]
  have kept: "computeVariableHashes (Suc 0) ?f () FillIntersects ''b'' 5 = Some (Inr [''b''])"
    by simp
  from computeVariableHashes_case_analysis [OF cb ib, of 0 FillContains 5]
  have dropped: "computeVariableHashes (Suc 0) ?f () FillContains ''b'' 5 = Some (Inr [])"
    by simp
  from computeVariableHashes_case_analysis [OF c i, of "Suc 0" FillIntersects 5 ?r] children
  have "if int (length (concat (map ?r geohashBase32Alphabet))) \<le> 5
        then computeVariableHashes (Suc (Suc 0)) ?f () FillIntersects [] 5
               = Some (Inr (concat (map ?r geohashBase32Alphabet)))
        else \<exists>k > 5. computeVariableHashes (Suc (Suc 0)) ?f () FillIntersects [] 5
               = Some (Inl (HashLimit 5 k))"
    by simp
  then have within: "computeVariableHashes (Suc (Suc 0)) ?f () FillIntersects [] 5
      = Some (Inr [''9'', ''b''])"
    unfolding total by simp
  from computeVariableHashes_case_analysis [OF c i, of "Suc 0" FillIntersects 1 ?r] children
  have "if int (length (concat (map ?r geohashBase32Alphabet))) \<le> 1
        then computeVariableHashes (Suc (Suc 0)) ?f () FillIntersects [] 1
               = Some (Inr (concat (map ?r geohashBase32Alphabet)))
        else \<exists>k > 1. computeVariableHashes (Suc (Suc 0)) ?f () FillIntersects [] 1
               = Some (Inl (HashLimit 1 k))"
    by simp
  then have over: "\<exists>k > 1. computeVariableHashes (Suc (Suc 0)) ?f () FillIntersects [] 1
      = Some (Inl (HashLimit 1 k))"
    unfolding total by simp
  from contained outside kept dropped within over show ?thesis by (intro conjI)
qed

subsection \<open>Rejected cells\<close>

text \<open>
  C7, as amended. A call with depth bound 1 makes no recursive call, so a cell is
  rejected (neither accepted nor subdivided) exactly when that call returns the empty
  list. Such a cell has \<^verbatim>\<open>Intersects\<close> false, or it is a boundary cell at
  \<^verbatim>\<open>maxPrecision\<close> in a mode other than \<^verbatim>\<open>FillIntersects\<close>: not contained,
  intersecting, and dropped at line 161. In mode \<^verbatim>\<open>FillIntersects\<close> only the first case
  is left.
\<close>

theorem rejected_cell:
  assumes "computeVariableHashes (Suc 0) f fence mode c maxHashes = Some (Inr [])"
  shows "intersector f fence c = Inr False \<or>
    (mode \<noteq> FillIntersects \<and> int (length c) = maxPrecision f \<and>
     container f fence c = Inr False \<and> intersector f fence c = Inr True)"
proof (cases "container f fence c = Inr False \<and> intersector f fence c = Inr True
      \<and> int (length c) \<noteq> maxPrecision f")
  case True
  then have "computeVariableHashes (Suc 0) f fence mode c maxHashes = None"
    using subdivides_iff [of f fence mode c maxHashes] by blast
  with assms show ?thesis by simp
next
  case False
  with assms show ?thesis
    by (auto split: sum.splits if_splits)
qed

theorem rejected_cell_counterexample:
  "computeVariableHashes (Suc 0)
     \<lparr>maxPrecision = 0, fixedPrecision = False, container = tablePredicate [],
       intersector = tablePredicate [[]]\<rparr> () FillContains [] 10 = Some (Inr []) \<and>
   intersector \<lparr>maxPrecision = 0, fixedPrecision = False, container = tablePredicate [],
       intersector = tablePredicate [[]]\<rparr> () [] = Inr True"
  by (simp add: tablePredicate_def FillContains_def FillIntersects_def)

theorem rejected_cell_witness:
  "intersector \<lparr>maxPrecision = 3, fixedPrecision = False, container = tablePredicate [],
       intersector = tablePredicate [[]]\<rparr> () ''9q'' = Inr False"
  using rejected_cell [of "\<lparr>maxPrecision = 3, fixedPrecision = False, container = tablePredicate [],
       intersector = tablePredicate [[]]\<rparr>" "()" FillIntersects "''9q''" 10]
  by (simp add: tablePredicate_def)

subsection \<open>The cap on the output\<close>











subsection \<open>The cells of a result are disjoint\<close>

lemma prefix_same_length: "prefix xs ys \<Longrightarrow> length xs = length ys \<Longrightarrow> xs = ys"
  by (auto simp: prefix_def)

lemma sibling_cells:
  assumes "prefix (h @ t) x" and "prefix (h @ s) y" and "length t = length s" and "t \<noteq> s"
  shows "\<not> prefix x y"
proof
  assume "prefix x y"
  with assms(1) have "prefix (h @ t) y" by (rule prefix_order.trans)
  with assms(2) have "prefix (h @ t) (h @ s) \<or> prefix (h @ s) (h @ t)"
    using prefix_same_cases [of "h @ t" y "h @ s"] by blast
  with assms(3) have "h @ t = h @ s"
    by (auto dest: prefix_same_length)
  with assms(4) show False by simp
qed

lemma prefixDisjoint_append:
  assumes "prefixDisjoint a" and "prefixDisjoint b"
    and "\<And>x y. x \<in> set a \<Longrightarrow> y \<in> set b \<Longrightarrow> \<not> prefix x y \<and> \<not> prefix y x"
  shows "prefixDisjoint (a @ b)"
proof -
  have "set a \<inter> set b = {}"
  proof (rule ccontr)
    assume "set a \<inter> set b \<noteq> {}"
    then obtain x where "x \<in> set a" "x \<in> set b" by blast
    with assms(3) have "\<not> prefix x x" by blast
    then show False by simp
  qed
  with assms show ?thesis unfolding prefixDisjoint_def by auto
qed

lemma loopChildren_prefixDisjoint:
  assumes "loopChildren call cap h acc syms = Some (Inr r)"
    and "\<And>s out. s \<in> set syms \<Longrightarrow> call (h @ s) = Some (Inr out) \<Longrightarrow>
           prefixDisjoint out \<and> (\<forall>x \<in> set out. prefix (h @ s) x)"
    and "distinct (seen @ syms)" and "\<forall>s \<in> set (seen @ syms). length s = 1"
    and "prefixDisjoint acc" and "\<forall>x \<in> set acc. \<exists>t \<in> set seen. prefix (h @ t) x"
  shows "prefixDisjoint r \<and> (\<forall>x \<in> set r. \<exists>t \<in> set (seen @ syms). prefix (h @ t) x)"
  using assms
proof (induction syms arbitrary: acc seen)
  case Nil
  then show ?case by simp
next
  case (Cons s syms)
  from Cons.prems(1) obtain out where out: "call (h @ s) = Some (Inr out)"
    by (auto split: option.splits sum.splits)
  with Cons.prems(1) have rest: "loopChildren call cap h (acc @ out) syms = Some (Inr r)"
    by (auto split: if_splits)
  from out Cons.prems(2) [of s out]
  have child: "prefixDisjoint out" "\<forall>x \<in> set out. prefix (h @ s) x" by simp_all
  have apart: "\<not> prefix x y \<and> \<not> prefix y x" if "x \<in> set acc" "y \<in> set out" for x y
  proof -
    from that(1) Cons.prems(6) obtain t where t: "t \<in> set seen" "prefix (h @ t) x" by blast
    from that(2) child(2) have y: "prefix (h @ s) y" by blast
    from t(1) Cons.prems(3) have "t \<noteq> s" by auto
    moreover from t(1) Cons.prems(4) have "length t = length s" by simp
    ultimately show ?thesis
      using t(2) y sibling_cells [of h t x s y] sibling_cells [of h s y t x] by auto
  qed
  with Cons.prems(5) child(1) have acc': "prefixDisjoint (acc @ out)"
    by (intro prefixDisjoint_append) blast+
  have seen': "\<forall>x \<in> set (acc @ out). \<exists>t \<in> set (seen @ [s]). prefix (h @ t) x"
    using Cons.prems(6) child(2) by auto
  have "prefixDisjoint r \<and> (\<forall>x \<in> set r. \<exists>t \<in> set ((seen @ [s]) @ syms). prefix (h @ t) x)"
  proof (rule Cons.IH [OF rest _ _ _ acc' seen'])
    show "prefixDisjoint out' \<and> (\<forall>x \<in> set out'. prefix (h @ t) x)"
      if "t \<in> set syms" "call (h @ t) = Some (Inr out')" for t out'
      using that Cons.prems(2) [of t out'] by simp
    show "distinct ((seen @ [s]) @ syms)" using Cons.prems(3) by simp
    show "\<forall>t \<in> set ((seen @ [s]) @ syms). length t = 1" using Cons.prems(4) by simp
  qed
  then show ?case by simp
qed

lemma computeVariableHashes_prefixDisjoint:
  "computeVariableHashes n f fence mode c cap = Some (Inr r) \<Longrightarrow>
   prefixDisjoint r \<and> (\<forall>x \<in> set r. prefix c x)"
proof (induction n arbitrary: c r)
  case 0
  then show ?case by simp
next
  case (Suc n)
  show ?case
  proof (cases "container f fence c = Inr False \<and> intersector f fence c = Inr True
      \<and> int (length c) \<noteq> maxPrecision f")
    case True
    with Suc.prems have loop:
      "loopChildren (\<lambda>h. computeVariableHashes n f fence mode h cap) cap c []
         geohashBase32Alphabet = Some (Inr r)" by simp
    have "prefixDisjoint r \<and>
        (\<forall>x \<in> set r. \<exists>t \<in> set ([] @ geohashBase32Alphabet). prefix (c @ t) x)"
    proof (rule loopChildren_prefixDisjoint [OF loop])
      show "prefixDisjoint out \<and> (\<forall>x \<in> set out. prefix (c @ s) x)"
        if "computeVariableHashes n f fence mode (c @ s) cap = Some (Inr out)" for s out
        using that by (rule Suc.IH)
      show "distinct ([] @ geohashBase32Alphabet)" by (simp add: alphabet_distinct)
      show "\<forall>s \<in> set ([] @ geohashBase32Alphabet). length s = 1"
        by (simp add: alphabet_length)
      show "prefixDisjoint []" by (simp add: prefixDisjoint_def)
      show "\<forall>x \<in> set []. \<exists>t \<in> set []. prefix (c @ t) x" by simp
    qed
    moreover have "prefix c x" if "prefix (c @ t) x" for t x
      using that by (rule append_prefixD)
    ultimately show ?thesis by blast
  next
    case False
    with Suc.prems have "r = [] \<or> r = [c]"
      by (auto split: sum.splits if_splits)
    then show ?thesis by (auto simp: prefixDisjoint_def)
  qed
qed

lemma loopChildren_set:
  assumes "loopChildren call cap h acc syms = Some (Inr r)" and "x \<in> set r"
  shows "x \<in> set acc \<or> (\<exists>s \<in> set syms. \<exists>out. call (h @ s) = Some (Inr out) \<and> x \<in> set out)"
  using assms
proof (induction syms arbitrary: acc)
  case Nil
  then show ?case by simp
next
  case (Cons s syms)
  from Cons.prems(1) obtain out where out: "call (h @ s) = Some (Inr out)"
    by (auto split: option.splits sum.splits)
  with Cons.prems(1) have rest: "loopChildren call cap h (acc @ out) syms = Some (Inr r)"
    by (auto split: if_splits)
  from Cons.IH [OF rest Cons.prems(2)] out show ?case by auto
qed

lemma computeVariableHashes_contained:
  "computeVariableHashes n f fence mode c cap = Some (Inr r) \<Longrightarrow> mode \<noteq> FillIntersects \<Longrightarrow>
   x \<in> set r \<Longrightarrow> container f fence x = Inr True"
proof (induction n arbitrary: c r)
  case 0
  then show ?case by simp
next
  case (Suc n)
  show ?case
  proof (cases "container f fence c = Inr False \<and> intersector f fence c = Inr True
      \<and> int (length c) \<noteq> maxPrecision f")
    case True
    with Suc.prems(1) have loop:
      "loopChildren (\<lambda>h. computeVariableHashes n f fence mode h cap) cap c []
         geohashBase32Alphabet = Some (Inr r)" by simp
    from loopChildren_set [OF loop Suc.prems(3)] obtain s out
      where "computeVariableHashes n f fence mode (c @ s) cap = Some (Inr out)" "x \<in> set out"
      by auto
    then show ?thesis using Suc.prems(2) by (intro Suc.IH [of "c @ s" out])
  next
    case False
    with Suc.prems show ?thesis
      by (auto split: sum.splits if_splits)
  qed
qed

text \<open>
  C3. A list that the search returns is prefix-disjoint: no cell occurs twice, and no
  cell is a prefix (ancestor) or an extension (descendant) of another one. In mode
  \<^verbatim>\<open>FillContains\<close> every returned cell has \<^verbatim>\<open>Contains\<close> true.
\<close>

theorem search_prefix_disjoint:
  assumes "computeVariableHashes depth f fence mode c maxHashes = Some (Inr r)"
  shows "distinct r \<and>
    (\<forall>x \<in> set r. \<forall>y \<in> set r. x \<noteq> y \<longrightarrow> \<not> prefix x y \<and> \<not> prefix y x) \<and>
    (mode = FillContains \<longrightarrow> (\<forall>x \<in> set r. container f fence x = Inr True))"
proof -
  from computeVariableHashes_prefixDisjoint [OF assms] have "prefixDisjoint r" ..
  then have "distinct r"
    and "\<forall>x \<in> set r. \<forall>y \<in> set r. x \<noteq> y \<longrightarrow> \<not> prefix x y \<and> \<not> prefix y x"
    unfolding prefixDisjoint_def by blast+
  moreover have "container f fence x = Inr True" if "mode = FillContains" "x \<in> set r" for x
  proof -
    from that(1) have "mode \<noteq> FillIntersects" by (simp add: FillModes_differ)
    with assms show ?thesis using that(2) by (rule computeVariableHashes_contained)
  qed
  ultimately show ?thesis by blast
qed

theorem search_prefix_disjoint_witness:
  "computeVariableHashes (Suc (Suc (Suc 0)))
     \<lparr>maxPrecision = 2, fixedPrecision = False,
       container = tablePredicate [''9'', ''bc''],
       intersector = tablePredicate [[], ''9'', ''b'', ''bc'', ''bd'']\<rparr> () FillContains [] 10
     = Some (Inr [''9'', ''bc'']) \<and>
   distinct [''9'', ''bc''] \<and> \<not> prefix ''9'' ''bc'' \<and> \<not> prefix ''bc'' ''9'' \<and>
   tablePredicate [''9'', ''bc''] () ''9'' = Inr True \<and>
   tablePredicate [''9'', ''bc''] () ''bc'' = Inr True"
proof -
  let ?f = "\<lparr>maxPrecision = 2, fixedPrecision = False,
       container = tablePredicate [''9'', ''bc''],
       intersector = tablePredicate [[], ''9'', ''b'', ''bc'', ''bd'']\<rparr>"
  have run: "computeVariableHashes (Suc (Suc (Suc 0))) ?f () FillContains [] 10
     = Some (Inr [''9'', ''bc''])"
    by (simp add: tablePredicate_def geohashBase32Alphabet_def FillContains_def FillIntersects_def)
  from search_prefix_disjoint [OF run] show ?thesis using run by simp
qed

subsection \<open>The two modes\<close>

lemma extendHashToMaxPrecision_mono:
  "extendHashToMaxPrecision n f c cap = Some r \<Longrightarrow> n \<le> m \<Longrightarrow>
   extendHashToMaxPrecision m f c cap = Some r"
proof (induction n arbitrary: m c r)
  case 0
  then show ?case by simp
next
  case (Suc n)
  from Suc.prems(2) obtain m' where m: "m = Suc m'" and le: "n \<le> m'"
    by (cases m) auto
  show ?case
  proof (cases "int (length c) = maxPrecision f")
    case True
    with Suc.prems(1) m show ?thesis by simp
  next
    case False
    with Suc.prems(1) have
      "loopChildren (\<lambda>h. extendHashToMaxPrecision n f h cap) cap c []
         geohashBase32Alphabet = Some r" by simp
    then have
      "loopChildren (\<lambda>h. extendHashToMaxPrecision m' f h cap) cap c []
         geohashBase32Alphabet = Some r"
      by (rule loopChildren_mono) (use Suc.IH le in blast)
    with False m show ?thesis by simp
  qed
qed

lemma loopChildren_subset:
  assumes "loopChildren call1 cap h acc1 syms = Some (Inr r1)"
    and "loopChildren call2 cap h acc2 syms = Some (Inr r2)"
    and "set acc1 \<subseteq> set acc2"
    and "\<And>s o1 o2. s \<in> set syms \<Longrightarrow> call1 (h @ s) = Some (Inr o1) \<Longrightarrow>
           call2 (h @ s) = Some (Inr o2) \<Longrightarrow> set o1 \<subseteq> set o2"
  shows "set r1 \<subseteq> set r2"
  using assms
proof (induction syms arbitrary: acc1 acc2)
  case Nil
  then show ?case by simp
next
  case (Cons s syms)
  from Cons.prems(1) obtain o1 where o1: "call1 (h @ s) = Some (Inr o1)"
    by (auto split: option.splits sum.splits)
  with Cons.prems(1) have rest1: "loopChildren call1 cap h (acc1 @ o1) syms = Some (Inr r1)"
    by (auto split: if_splits)
  from Cons.prems(2) obtain o2 where o2: "call2 (h @ s) = Some (Inr o2)"
    by (auto split: option.splits sum.splits)
  with Cons.prems(2) have rest2: "loopChildren call2 cap h (acc2 @ o2) syms = Some (Inr r2)"
    by (auto split: if_splits)
  from o1 o2 Cons.prems(4) [of s o1 o2] have "set o1 \<subseteq> set o2" by simp
  with Cons.prems(3) have accs: "set (acc1 @ o1) \<subseteq> set (acc2 @ o2)" by auto
  show ?case
  proof (rule Cons.IH [OF rest1 rest2 accs])
    show "set p1 \<subseteq> set p2"
      if "t \<in> set syms" "call1 (h @ t) = Some (Inr p1)" "call2 (h @ t) = Some (Inr p2)"
      for t p1 p2
      using that Cons.prems(4) [of t p1 p2] by simp
  qed
qed

lemma computeVariableHashes_modes_subset:
  "computeVariableHashes n f fence mode c cap = Some (Inr rc) \<Longrightarrow>
   computeVariableHashes n f fence FillIntersects c cap = Some (Inr ri) \<Longrightarrow>
   set rc \<subseteq> set ri"
proof (induction n arbitrary: c rc ri)
  case 0
  then show ?case by simp
next
  case (Suc n)
  show ?case
  proof (cases "container f fence c = Inr False \<and> intersector f fence c = Inr True
      \<and> int (length c) \<noteq> maxPrecision f")
    case True
    with Suc.prems have
      "loopChildren (\<lambda>h. computeVariableHashes n f fence mode h cap) cap c []
         geohashBase32Alphabet = Some (Inr rc)"
      "loopChildren (\<lambda>h. computeVariableHashes n f fence FillIntersects h cap) cap c []
         geohashBase32Alphabet = Some (Inr ri)"
      by simp_all
    then show ?thesis
      by (rule loopChildren_subset) (use Suc.IH in simp_all)
  next
    case False
    with Suc.prems show ?thesis
      by (auto split: sum.splits if_splits)
  qed
qed

lemma fillLoop_elem:
  assumes "fillLoop n f cap out hs = Some (Inr r)" and "x \<in> set r"
  shows "x \<in> set out \<or>
    (\<exists>h \<in> set hs. \<exists>e. extendHashToMaxPrecision n f h cap = Some (Inr e) \<and> x \<in> set e)"
  using assms
proof (induction hs arbitrary: out)
  case Nil
  then show ?case by simp
next
  case (Cons h hs)
  from Cons.prems(1) obtain e where e: "extendHashToMaxPrecision n f h cap = Some (Inr e)"
    by (auto split: option.splits sum.splits)
  with Cons.prems(1) have rest: "fillLoop n f cap (out @ e) hs = Some (Inr r)"
    by (auto split: if_splits)
  from Cons.IH [OF rest Cons.prems(2)] e show ?case by auto
qed

lemma fillLoop_covers:
  assumes "fillLoop n f cap out hs = Some (Inr r)"
  shows "set out \<subseteq> set r \<and>
    (\<forall>h \<in> set hs. \<exists>e. extendHashToMaxPrecision n f h cap = Some (Inr e) \<and> set e \<subseteq> set r)"
  using assms
proof (induction hs arbitrary: out)
  case Nil
  then show ?case by simp
next
  case (Cons h hs)
  from Cons.prems obtain e where e: "extendHashToMaxPrecision n f h cap = Some (Inr e)"
    by (auto split: option.splits sum.splits)
  with Cons.prems have rest: "fillLoop n f cap (out @ e) hs = Some (Inr r)"
    by (auto split: if_splits)
  from Cons.IH [OF rest] e show ?case by auto
qed

text \<open>
  C4. When \<^verbatim>\<open>Fill\<close> succeeds for the same filler, polygon and \<^verbatim>\<open>maxHashes\<close> in mode
  \<^verbatim>\<open>FillContains\<close> and in mode \<^verbatim>\<open>FillIntersects\<close>, every cell of the first result is a
  cell of the second. The two searches take the same decisions except at line 158, so
  the consistency of the two predicates is not needed.
\<close>

theorem Fill_modes_subset:
  assumes "Fill n f fence FillContains maxHashes = Some (Inr rc)"
    and "Fill m f fence FillIntersects maxHashes = Some (Inr ri)"
  shows "set rc \<subseteq> set ri"
proof -
  from assms(1) obtain hc where
    hc: "computeVariableHashes n f fence FillContains [] maxHashes = Some (Inr hc)"
    unfolding Fill_def by (auto split: option.splits sum.splits)
  from assms(2) obtain hi where
    hi: "computeVariableHashes m f fence FillIntersects [] maxHashes = Some (Inr hi)"
    unfolding Fill_def by (auto split: option.splits sum.splits)
  from hc have "computeVariableHashes (max n m) f fence FillContains [] maxHashes = Some (Inr hc)"
    by (rule computeVariableHashes_mono) simp
  moreover
  from hi have "computeVariableHashes (max n m) f fence FillIntersects [] maxHashes = Some (Inr hi)"
    by (rule computeVariableHashes_mono) simp
  ultimately have search: "set hc \<subseteq> set hi"
    by (rule computeVariableHashes_modes_subset)
  show ?thesis
  proof (cases "fixedPrecision f")
    case False
    with assms hc hi have "rc = hc" "ri = hi" unfolding Fill_def by simp_all
    with search show ?thesis by simp
  next
    case True
    with assms(1) hc have loopc: "fillLoop n f maxHashes [] hc = Some (Inr rc)"
      unfolding Fill_def by (auto split: if_splits)
    from True assms(2) hi have loopi: "fillLoop m f maxHashes [] hi = Some (Inr ri)"
      unfolding Fill_def by (auto split: if_splits)
    show ?thesis
    proof
      fix x assume "x \<in> set rc"
      with fillLoop_elem [OF loopc, of x] obtain h e where h: "h \<in> set hc"
        and e: "extendHashToMaxPrecision n f h maxHashes = Some (Inr e)" and x: "x \<in> set e"
        by auto
      from h search have "h \<in> set hi" by blast
      with fillLoop_covers [OF loopi] obtain e' where
        e': "extendHashToMaxPrecision m f h maxHashes = Some (Inr e')" and sub: "set e' \<subseteq> set ri"
        by blast
      from e have "extendHashToMaxPrecision (max n m) f h maxHashes = Some (Inr e)"
        by (rule extendHashToMaxPrecision_mono) simp
      moreover from e' have "extendHashToMaxPrecision (max n m) f h maxHashes = Some (Inr e')"
        by (rule extendHashToMaxPrecision_mono) simp
      ultimately have "e = e'" by simp
      with x sub show "x \<in> set ri" by blast
    qed
  qed
qed

theorem Fill_modes_subset_witness:
  "Fill (Suc (Suc 0)) \<lparr>maxPrecision = 1, fixedPrecision = False,
       container = tablePredicate [''9''], intersector = tablePredicate [[], ''9'', ''b'']\<rparr>
     () FillContains 5 = Some (Inr [''9'']) \<and>
   Fill (Suc (Suc 0)) \<lparr>maxPrecision = 1, fixedPrecision = False,
       container = tablePredicate [''9''], intersector = tablePredicate [[], ''9'', ''b'']\<rparr>
     () FillIntersects 5 = Some (Inr [''9'', ''b'']) \<and>
   set [''9''] \<subseteq> set [''9'', ''b'']"
proof -
  let ?f = "\<lparr>maxPrecision = 1, fixedPrecision = False,
       container = tablePredicate [''9''], intersector = tablePredicate [[], ''9'', ''b'']\<rparr>"
  have c: "Fill (Suc (Suc 0)) ?f () FillContains 5 = Some (Inr [''9''])"
    by (simp add: Fill_def tablePredicate_def geohashBase32Alphabet_def
        FillContains_def FillIntersects_def)
  have i: "Fill (Suc (Suc 0)) ?f () FillIntersects 5 = Some (Inr [''9'', ''b''])"
    by (simp add: Fill_def tablePredicate_def geohashBase32Alphabet_def FillIntersects_def)
  from Fill_modes_subset [OF c i] c i show ?thesis by blast
qed

subsection \<open>The expansion to the maximum precision\<close>

lemma descendantsAt_0: "descendantsAt 0 h = [h]"
  by (simp add: descendantsAt_def)

lemma descendantsAt_Suc:
  "descendantsAt (Suc k) h = concat (map (\<lambda>s. descendantsAt k (h @ s)) geohashBase32Alphabet)"
  by (simp add: descendantsAt_def map_concat comp_def)

lemma length_descendantsAt: "length (descendantsAt k h) = 32 ^ k"
proof (induction k arbitrary: h)
  case 0
  then show ?case by (simp add: descendantsAt_0)
next
  case (Suc k)
  then show ?case
    by (simp add: descendantsAt_Suc length_concat comp_def sum_list_triv alphabet_size)
qed

lemma descendantsAt_precision:
  "x \<in> set (descendantsAt k h) \<Longrightarrow> length x = length h + k"
proof (induction k arbitrary: h)
  case 0
  then show ?case by (simp add: descendantsAt_0)
next
  case (Suc k)
  then obtain s where "s \<in> set geohashBase32Alphabet" "x \<in> set (descendantsAt k (h @ s))"
    by (auto simp: descendantsAt_Suc)
  with Suc.IH [of "h @ s"] show ?case by (simp add: alphabet_length)
qed

lemma extendHashToMaxPrecision_descendants:
  assumes "int (length h) + int k = maxPrecision f" and "k = 0 \<or> 32 ^ k \<le> cap"
  shows "extendHashToMaxPrecision (Suc k) f h cap = Some (Inr (descendantsAt k h))"
  using assms
proof (induction k arbitrary: h)
  case 0
  then show ?case by (simp add: descendantsAt_0)
next
  case (Suc k)
  let ?call = "\<lambda>c. extendHashToMaxPrecision (Suc k) f c cap"
  let ?r = "\<lambda>s. descendantsAt k (h @ s)"
  from Suc.prems have cap: "(32::int) ^ Suc k \<le> cap" by simp
  have "(32::int) ^ k \<le> 32 ^ Suc k" by simp
  with cap have capk: "(32::int) ^ k \<le> cap" by linarith
  have children: "?call (h @ s) = Some (Inr (?r s))" if "s \<in> set geohashBase32Alphabet" for s
  proof (rule Suc.IH)
    from that Suc.prems(1) show "int (length (h @ s)) + int k = maxPrecision f"
      by (simp add: alphabet_length)
    from capk show "k = 0 \<or> 32 ^ k \<le> cap" ..
  qed
  have "int (length (descendantsAt (Suc k) h)) = 32 ^ Suc k"
    unfolding length_descendantsAt by simp
  with cap have "int (length ([] @ concat (map ?r geohashBase32Alphabet))) \<le> cap"
    by (simp add: descendantsAt_Suc)
  with children have "loopChildren ?call cap h [] geohashBase32Alphabet
      = Some (Inr ([] @ concat (map ?r geohashBase32Alphabet)))"
    by (rule loopChildren_within_cap)
  moreover from Suc.prems(1) have "int (length h) \<noteq> maxPrecision f" by simp
  ultimately show ?case by (simp add: descendantsAt_Suc)
qed

lemma extendHashToMaxPrecision_predicates:
  "extendHashToMaxPrecision n (f\<lparr>container := c', intersector := i'\<rparr>) h cap
     = extendHashToMaxPrecision n f h cap"
proof (induction n arbitrary: h)
  case 0
  then show ?case by simp
next
  case (Suc n)
  then show ?case by simp
qed

lemma list_all2_replicate:
  "list_all2 (\<lambda>x ys. x \<in> set ys) symbols (replicate k xs) \<longleftrightarrow>
      length symbols = k \<and> set symbols \<subseteq> set xs"
proof
  assume "list_all2 (\<lambda>x ys. x \<in> set ys) symbols (replicate k xs)"
  then show "length symbols = k \<and> set symbols \<subseteq> set xs"
    by (auto simp: list_all2_conv_all_nth in_set_conv_nth)
next
  assume "length symbols = k \<and> set symbols \<subseteq> set xs"
  then show "list_all2 (\<lambda>x ys. x \<in> set ys) symbols (replicate k xs)"
    by (auto simp: list_all2_conv_all_nth)
qed

lemma set_descendantsAt:
  "set (descendantsAt k h) =
     {h @ concat symbols | symbols. length symbols = k \<and> set symbols \<subseteq> set geohashBase32Alphabet}"
  unfolding descendantsAt_def by (auto simp: product_lists_set list_all2_replicate)

text \<open>
  C5. For a cell \<open>h\<close> no longer than \<^verbatim>\<open>maxPrecision\<close>, with \<open>k\<close> the difference:
  a cell of length \<^verbatim>\<open>maxPrecision\<close> is returned alone and unchanged, for every
  \<^verbatim>\<open>maxHashes\<close>; otherwise, when \<open>32 ^ k\<close> is at most \<^verbatim>\<open>maxHashes\<close>, the call returns
  (for every depth bound above \<open>k\<close>) the \<open>32 ^ k\<close> cells made of \<open>h\<close> and each sequence of
  \<open>k\<close> symbols, depth first in alphabet order, each of length \<^verbatim>\<open>maxPrecision\<close>; and the
  result does not depend on the two predicates of the filler.
\<close>

theorem extendHashToMaxPrecision_enumerates:
  assumes "int (length h) \<le> maxPrecision f"
    and "k = nat (maxPrecision f - int (length h))"
  shows "(int (length h) = maxPrecision f \<longrightarrow>
       extendHashToMaxPrecision (Suc depth) f h maxHashes = Some (Inr [h])) \<and>
    (int (length h) \<noteq> maxPrecision f \<and> 32 ^ k \<le> maxHashes \<and> k < depth \<longrightarrow>
       extendHashToMaxPrecision depth f h maxHashes = Some (Inr (descendantsAt k h)) \<and>
       length (descendantsAt k h) = 32 ^ k \<and>
       (\<forall>x \<in> set (descendantsAt k h). int (length x) = maxPrecision f) \<and>
       extendHashToMaxPrecision depth (f\<lparr>container := c', intersector := i'\<rparr>) h maxHashes
         = extendHashToMaxPrecision depth f h maxHashes)"
proof -
  have leaf: "extendHashToMaxPrecision (Suc depth) f h maxHashes = Some (Inr [h])"
    if "int (length h) = maxPrecision f"
    using that by simp
  have sum: "int (length h) + int k = maxPrecision f"
    using assms by simp
  have run: "extendHashToMaxPrecision depth f h maxHashes = Some (Inr (descendantsAt k h))"
    if "32 ^ k \<le> maxHashes" "k < depth"
  proof -
    from that(1) have "k = 0 \<or> 32 ^ k \<le> maxHashes" ..
    with sum have "extendHashToMaxPrecision (Suc k) f h maxHashes
        = Some (Inr (descendantsAt k h))"
      by (rule extendHashToMaxPrecision_descendants)
    moreover from that(2) have "Suc k \<le> depth" by simp
    ultimately show ?thesis by (rule extendHashToMaxPrecision_mono)
  qed
  have precision: "\<forall>x \<in> set (descendantsAt k h). int (length x) = maxPrecision f"
    using sum by (auto dest: descendantsAt_precision)
  from leaf run precision show ?thesis
    by (simp add: length_descendantsAt extendHashToMaxPrecision_predicates)
qed

theorem extendHashToMaxPrecision_enumerates_witness:
  "extendHashToMaxPrecision (Suc (Suc 0))
     \<lparr>maxPrecision = 3, fixedPrecision = True, container = tablePredicate [],
       intersector = tablePredicate []\<rparr> ''9q'' 32
     = Some (Inr (descendantsAt (Suc 0) ''9q'')) \<and>
   extendHashToMaxPrecision (Suc 0)
     \<lparr>maxPrecision = 3, fixedPrecision = True, container = tablePredicate [],
       intersector = tablePredicate []\<rparr> ''9q8'' 0 = Some (Inr [''9q8''])"
proof -
  let ?f = "\<lparr>maxPrecision = 3, fixedPrecision = True, container = tablePredicate [],
       intersector = tablePredicate []\<rparr>"
  have h1: "int (length ''9q'') \<le> maxPrecision ?f" by simp
  have h2: "Suc 0 = nat (maxPrecision ?f - int (length ''9q''))" by simp
  have h3: "int (length ''9q'') \<noteq> maxPrecision ?f \<and> (32::int) ^ Suc 0 \<le> 32
      \<and> Suc 0 < Suc (Suc 0)" by simp
  from extendHashToMaxPrecision_enumerates [OF h1 h2, of "Suc (Suc 0)" 32] h3
  have deep: "extendHashToMaxPrecision (Suc (Suc 0)) ?f ''9q'' 32
      = Some (Inr (descendantsAt (Suc 0) ''9q''))"
    by blast
  have g1: "int (length ''9q8'') \<le> maxPrecision ?f" by simp
  have g2: "0 = nat (maxPrecision ?f - int (length ''9q8''))" by simp
  have g3: "int (length ''9q8'') = maxPrecision ?f" by simp
  from extendHashToMaxPrecision_enumerates [OF g1 g2, of 0 0] g3
  have leaf: "extendHashToMaxPrecision (Suc 0) ?f ''9q8'' 0 = Some (Inr [''9q8''])"
    by blast
  from deep leaf show ?thesis ..
qed

subsection \<open>Overflow makes Fill fail\<close>















subsection \<open>The check before the expansion loop\<close>

lemma loopChildren_grows:
  "loopChildren call cap h acc syms = Some (Inr r) \<Longrightarrow> length acc \<le> length r"
proof (induction syms arbitrary: acc)
  case Nil
  then show ?case by simp
next
  case (Cons s syms)
  from Cons.prems obtain out where out: "call (h @ s) = Some (Inr out)"
    by (auto split: option.splits sum.splits)
  with Cons.prems have "loopChildren call cap h (acc @ out) syms = Some (Inr r)"
    by (auto split: if_splits)
  then have "length (acc @ out) \<le> length r" by (rule Cons.IH)
  then show ?case by simp
qed

lemma loopChildren_nonempty:
  assumes "loopChildren call cap h acc syms = Some (Inr r)" and "syms \<noteq> []"
    and "\<And>s out. s \<in> set syms \<Longrightarrow> call (h @ s) = Some (Inr out) \<Longrightarrow> out \<noteq> []"
  shows "r \<noteq> []"
proof (cases syms)
  case Nil
  with assms(2) show ?thesis by simp
next
  case (Cons s rest)
  with assms(1) obtain out where out: "call (h @ s) = Some (Inr out)"
    by (auto split: option.splits sum.splits)
  with assms(1) Cons have "loopChildren call cap h (acc @ out) rest = Some (Inr r)"
    by (auto split: if_splits)
  then have "length (acc @ out) \<le> length r" by (rule loopChildren_grows)
  moreover from out Cons assms(3) [of s out] have "out \<noteq> []" by simp
  ultimately show ?thesis by auto
qed

lemma loopChildren_count:
  assumes "loopChildren call cap h acc syms = Some (Inl (HashLimit a b))"
    and "\<And>s out. s \<in> set syms \<Longrightarrow> call (h @ s) = Some (Inr out) \<Longrightarrow> out \<noteq> []"
    and "\<And>s. s \<in> set syms \<Longrightarrow> call (h @ s) = Some (Inl (HashLimit a b)) \<Longrightarrow> 1 \<le> b"
  shows "1 \<le> b"
  using assms
proof (induction syms arbitrary: acc)
  case Nil
  then show ?case by simp
next
  case (Cons s syms)
  from Cons.prems(1) obtain x where x: "call (h @ s) = Some x"
    by (auto split: option.splits)
  have here: "s \<in> set (s # syms)" by simp
  show ?case
  proof (cases x)
    case (Inl err)
    with x Cons.prems(1) have "call (h @ s) = Some (Inl (HashLimit a b))" by simp
    with here show ?thesis by (rule Cons.prems(3))
  next
    case (Inr out)
    with x have ok: "call (h @ s) = Some (Inr out)" by simp
    with here have nonempty: "out \<noteq> []" by (rule Cons.prems(2))
    show ?thesis
    proof (cases "int (length out) > cap \<or> int (length (acc @ out)) > cap")
      case True
      with ok Cons.prems(1) have "b = int (length out) \<or> b = int (length (acc @ out))"
        by (auto split: if_splits)
      with nonempty show ?thesis by (cases out) auto
    next
      case False
      with ok Cons.prems(1)
      have rest: "loopChildren call cap h (acc @ out) syms = Some (Inl (HashLimit a b))"
        by simp
      show ?thesis
      proof (rule Cons.IH [OF rest])
        fix t p assume "t \<in> set syms" and p: "call (h @ t) = Some (Inr p)"
        then have "t \<in> set (s # syms)" by simp
        then show "p \<noteq> []" using p by (rule Cons.prems(2))
      next
        fix t assume "t \<in> set syms" and e: "call (h @ t) = Some (Inl (HashLimit a b))"
        then have "t \<in> set (s # syms)" by simp
        then show "1 \<le> b" using e by (rule Cons.prems(3))
      qed
    qed
  qed
qed

lemma extendHashToMaxPrecision_nonempty:
  "extendHashToMaxPrecision n f c cap = Some (Inr r) \<Longrightarrow> r \<noteq> []"
proof (induction n arbitrary: c r)
  case 0
  then show ?case by simp
next
  case (Suc n)
  show ?case
  proof (cases "int (length c) = maxPrecision f")
    case True
    with Suc.prems show ?thesis by auto
  next
    case False
    with Suc.prems have
      "loopChildren (\<lambda>h. extendHashToMaxPrecision n f h cap) cap c []
         geohashBase32Alphabet = Some (Inr r)" by simp
    then show ?thesis using alphabet_nonempty
      by (rule loopChildren_nonempty) (rule Suc.IH)
  qed
qed

lemma extendHashToMaxPrecision_count:
  "extendHashToMaxPrecision n f c cap = Some (Inl (HashLimit a b)) \<Longrightarrow> 1 \<le> b"
proof (induction n arbitrary: c)
  case 0
  then show ?case by simp
next
  case (Suc n)
  show ?case
  proof (cases "int (length c) = maxPrecision f")
    case True
    with Suc.prems show ?thesis by simp
  next
    case False
    with Suc.prems have
      "loopChildren (\<lambda>h. extendHashToMaxPrecision n f h cap) cap c []
         geohashBase32Alphabet = Some (Inl (HashLimit a b))" by simp
    then show ?thesis
    proof (rule loopChildren_count)
      show "out \<noteq> []" if "extendHashToMaxPrecision n f (c @ s) cap = Some (Inr out)" for s out
        using that by (rule extendHashToMaxPrecision_nonempty)
      show "1 \<le> b" if "extendHashToMaxPrecision n f (c @ s) cap = Some (Inl (HashLimit a b))"
        for s
        using that by (rule Suc.IH)
    qed
  qed
qed

lemma fillLoop_negative_cap:
  assumes "cap < 0"
  shows "fillLoop n f cap [] hashes \<noteq> Some (Inl (HashLimit cap 0))"
proof (cases hashes)
  case Nil
  then show ?thesis by simp
next
  case (Cons h rest)
  show ?thesis
  proof (cases "extendHashToMaxPrecision n f h cap")
    case None
    with Cons show ?thesis by simp
  next
    case (Some x)
    show ?thesis
    proof (cases x)
      case (Inl err)
      have "err \<noteq> HashLimit cap 0"
      proof
        assume "err = HashLimit cap 0"
        with Some Inl have "extendHashToMaxPrecision n f h cap = Some (Inl (HashLimit cap 0))"
          by simp
        then have "(1::int) \<le> 0" by (rule extendHashToMaxPrecision_count)
        then show False by simp
      qed
      with Cons Some Inl show ?thesis by simp
    next
      case (Inr e)
      with Some have "e \<noteq> []" by (intro extendHashToMaxPrecision_nonempty [of n f h cap e]) simp
      then have "int (length e) \<noteq> 0" by simp
      moreover from assms have "cap < int (length e)" by simp
      ultimately show ?thesis using Cons Some Inr by simp
    qed
  qed
qed

text \<open>
  C8, as amended. The comparison of the empty accumulator's length with \<^verbatim>\<open>maxHashes\<close>
  at lines 97 to 99 has no effect, that is, \<^verbatim>\<open>Fill\<close> equals \<^verbatim>\<open>Fill\<close> without it, on
  every input but those with a negative \<^verbatim>\<open>maxHashes\<close>, fixed precision and a search that
  succeeds. On exactly those the comparison \<open>0 > maxHashes\<close> is true: \<^verbatim>\<open>Fill\<close> returns
  the hash-limit error with the count 0, and \<^verbatim>\<open>Fill\<close> without the check does something
  else (it returns the empty list when the search found no cell).
\<close>

theorem Fill_precheck:
  "(\<not> (maxHashes < 0 \<and> fixedPrecision f \<and>
        (\<exists>hashes. computeVariableHashes depth f fence mode [] maxHashes = Some (Inr hashes))) \<longrightarrow>
      Fill depth f fence mode maxHashes = FillWithoutPrecheck depth f fence mode maxHashes) \<and>
   (maxHashes < 0 \<and> fixedPrecision f \<and>
    computeVariableHashes depth f fence mode [] maxHashes = Some (Inr hashes) \<longrightarrow>
      Fill depth f fence mode maxHashes = Some (Inl (HashLimit maxHashes 0)) \<and>
      FillWithoutPrecheck depth f fence mode maxHashes \<noteq> Fill depth f fence mode maxHashes \<and>
      (hashes = [] \<longrightarrow> FillWithoutPrecheck depth f fence mode maxHashes = Some (Inr [])))"
proof -
  have same: "Fill depth f fence mode maxHashes = FillWithoutPrecheck depth f fence mode maxHashes"
    if "\<not> (maxHashes < 0 \<and> fixedPrecision f \<and>
        (\<exists>hashes. computeVariableHashes depth f fence mode [] maxHashes = Some (Inr hashes)))"
    using that unfolding Fill_def FillWithoutPrecheck_def
    by (auto split: option.splits sum.splits)
  have fires: "Fill depth f fence mode maxHashes = Some (Inl (HashLimit maxHashes 0))"
    and differs: "FillWithoutPrecheck depth f fence mode maxHashes
        \<noteq> Fill depth f fence mode maxHashes"
    and empty: "hashes = [] \<longrightarrow>
        FillWithoutPrecheck depth f fence mode maxHashes = Some (Inr [])"
    if region: "maxHashes < 0 \<and> fixedPrecision f \<and>
      computeVariableHashes depth f fence mode [] maxHashes = Some (Inr hashes)"
  proof -
    from region show fires: "Fill depth f fence mode maxHashes = Some (Inl (HashLimit maxHashes 0))"
      unfolding Fill_def by simp
    from region have without: "FillWithoutPrecheck depth f fence mode maxHashes
        = fillLoop depth f maxHashes [] hashes"
      unfolding FillWithoutPrecheck_def by simp
    from region have "fillLoop depth f maxHashes [] hashes \<noteq> Some (Inl (HashLimit maxHashes 0))"
      by (intro fillLoop_negative_cap) simp
    with without fires show "FillWithoutPrecheck depth f fence mode maxHashes
        \<noteq> Fill depth f fence mode maxHashes" by simp
    from without show "hashes = [] \<longrightarrow>
        FillWithoutPrecheck depth f fence mode maxHashes = Some (Inr [])" by simp
  qed
  from same fires differs empty show ?thesis by blast
qed

text \<open>
  With \<^verbatim>\<open>maxHashes = -1\<close>, fixed precision and a polygon that meets no cell, the search
  returns the empty list; \<^verbatim>\<open>Fill\<close> fails at line 98, and without the check the loop
  would not run and the empty list would be returned.
\<close>

theorem Fill_precheck_counterexample:
  "Fill (Suc 0) \<lparr>maxPrecision = 6, fixedPrecision = True, container = tablePredicate [],
       intersector = tablePredicate []\<rparr> () FillContains (- 1) = Some (Inl (HashLimit (- 1) 0)) \<and>
   FillWithoutPrecheck (Suc 0) \<lparr>maxPrecision = 6, fixedPrecision = True,
       container = tablePredicate [], intersector = tablePredicate []\<rparr> () FillContains (- 1)
     = Some (Inr [])"
  by (simp add: Fill_def FillWithoutPrecheck_def tablePredicate_def)

theorem Fill_precheck_witness:
  "Fill (Suc 0) \<lparr>maxPrecision = 0, fixedPrecision = True, container = tablePredicate [[]],
       intersector = tablePredicate [[]]\<rparr> () FillContains 1
     = FillWithoutPrecheck (Suc 0) \<lparr>maxPrecision = 0, fixedPrecision = True,
         container = tablePredicate [[]], intersector = tablePredicate [[]]\<rparr> () FillContains 1 \<and>
   computeVariableHashes (Suc (Suc 0)) \<lparr>maxPrecision = 1, fixedPrecision = True,
       container = tablePredicate [], intersector = tablePredicate [[]]\<rparr> () FillContains [] (- 1)
     = Some (Inl (HashLimit (- 1) 0)) \<and>
   Fill (Suc (Suc 0)) \<lparr>maxPrecision = 1, fixedPrecision = True,
       container = tablePredicate [], intersector = tablePredicate [[]]\<rparr> () FillContains (- 1)
     = FillWithoutPrecheck (Suc (Suc 0)) \<lparr>maxPrecision = 1, fixedPrecision = True,
         container = tablePredicate [], intersector = tablePredicate [[]]\<rparr> () FillContains (- 1) \<and>
   Fill (Suc 0) \<lparr>maxPrecision = 0, fixedPrecision = True, container = tablePredicate [[]],
       intersector = tablePredicate [[]]\<rparr> () FillContains (- 2)
     = Some (Inl (HashLimit (- 2) 0)) \<and>
   FillWithoutPrecheck (Suc 0) \<lparr>maxPrecision = 0, fixedPrecision = True,
       container = tablePredicate [[]], intersector = tablePredicate [[]]\<rparr> () FillContains (- 2)
     \<noteq> Fill (Suc 0) \<lparr>maxPrecision = 0, fixedPrecision = True, container = tablePredicate [[]],
       intersector = tablePredicate [[]]\<rparr> () FillContains (- 2)"
proof -
  let ?f = "\<lparr>maxPrecision = 0, fixedPrecision = True, container = tablePredicate [[]],
       intersector = tablePredicate [[]]\<rparr>"
  let ?g = "\<lparr>maxPrecision = 1, fixedPrecision = True,
       container = tablePredicate [], intersector = tablePredicate [[]]\<rparr>"
  note same = Fill_precheck [THEN conjunct1]
  note region = Fill_precheck [THEN conjunct2]
  have "\<not> ((1::int) < 0 \<and> fixedPrecision ?f \<and>
      (\<exists>hashes. computeVariableHashes (Suc 0) ?f () FillContains [] 1 = Some (Inr hashes)))"
    by simp
  with same have a: "Fill (Suc 0) ?f () FillContains 1
      = FillWithoutPrecheck (Suc 0) ?f () FillContains 1"
    by (rule mp)
  have failed: "computeVariableHashes (Suc (Suc 0)) ?g () FillContains [] (- 1)
      = Some (Inl (HashLimit (- 1) 0))"
    by (simp add: tablePredicate_def geohashBase32Alphabet_def)
  then have "\<not> ((- 1::int) < 0 \<and> fixedPrecision ?g \<and>
      (\<exists>hashes. computeVariableHashes (Suc (Suc 0)) ?g () FillContains [] (- 1)
         = Some (Inr hashes)))"
    by simp
  with same have b: "Fill (Suc (Suc 0)) ?g () FillContains (- 1)
      = FillWithoutPrecheck (Suc (Suc 0)) ?g () FillContains (- 1)"
    by (rule mp)
  have "(- 2::int) < 0 \<and> fixedPrecision ?f \<and>
      computeVariableHashes (Suc 0) ?f () FillContains [] (- 2) = Some (Inr [[]])"
    by (simp add: tablePredicate_def)
  with region have c: "Fill (Suc 0) ?f () FillContains (- 2) = Some (Inl (HashLimit (- 2) 0)) \<and>
      FillWithoutPrecheck (Suc 0) ?f () FillContains (- 2) \<noteq> Fill (Suc 0) ?f () FillContains (- 2) \<and>
      ([[]] = ([] :: string list) \<longrightarrow>
        FillWithoutPrecheck (Suc 0) ?f () FillContains (- 2) = Some (Inr []))"
    by (rule mp)
  from a failed b c show ?thesis by blast
qed

subsection \<open>A failing predicate aborts Fill\<close>

lemma loopChildren_append:
  "loopChildren call cap h acc (xs @ ys) =
     (case loopChildren call cap h acc xs of
        Some (Inr acc') \<Rightarrow> loopChildren call cap h acc' ys
      | other \<Rightarrow> other)"
proof (induction xs arbitrary: acc)
  case Nil
  then show ?case by simp
next
  case (Cons x xs)
  then show ?case by (simp split: option.splits sum.splits)
qed

lemma loopChildren_child_fails:
  assumes "loopChildren call cap h acc before = Some (Inr hashes)"
    and "call (h @ s) = Some (Inl err)"
  shows "loopChildren call cap h acc (before @ s # rest) = Some (Inl err)"
  using assms by (simp add: loopChildren_append)

lemma alphabet_split:
  assumes "s \<in> set geohashBase32Alphabet"
  shows "\<exists>rest. geohashBase32Alphabet = takeWhile (\<lambda>t. t \<noteq> s) geohashBase32Alphabet @ s # rest"
proof -
  from assms have "dropWhile (\<lambda>t. t \<noteq> s) geohashBase32Alphabet \<noteq> []"
    by (simp add: dropWhile_eq_Nil_conv)
  then obtain x rest where d: "dropWhile (\<lambda>t. t \<noteq> s) geohashBase32Alphabet = x # rest"
    by (cases "dropWhile (\<lambda>t. t \<noteq> s) geohashBase32Alphabet") auto
  then have "x = s" using hd_dropWhile [of "\<lambda>t. t \<noteq> s" geohashBase32Alphabet] by auto
  with d takeWhile_dropWhile_id [of "\<lambda>t. t \<noteq> s" geohashBase32Alphabet]
  show ?thesis by metis
qed

lemma searchReaches_depth:
  "searchReaches f fence mode cap n c path \<Longrightarrow> length path < n"
  by (induction f fence mode cap n c path rule: searchReaches.induct) auto

lemma searchReaches_error:
  "searchReaches f fence mode cap n c path \<Longrightarrow>
   computeVariableHashes (n - length path) f fence mode (c @ path) cap = Some (Inl err) \<Longrightarrow>
   computeVariableHashes n f fence mode c cap = Some (Inl err)"
proof (induction f fence mode cap n c path rule: searchReaches.induct)
  case (1 f fence mode maxHashes c path)
  then show ?case by simp
next
  case (2 f fence mode maxHashes depth c)
  then show ?case by simp
next
  case (3 f fence mode maxHashes depth c ch path)
  let ?call = "\<lambda>h. computeVariableHashes depth f fence mode h maxHashes"
  let ?before = "takeWhile (\<lambda>s. s \<noteq> [ch]) geohashBase32Alphabet"
  from "3.prems"(1) have sub: "container f fence c = Inr False"
      "intersector f fence c = Inr True" "int (length c) \<noteq> maxPrecision f"
    and sym: "[ch] \<in> set geohashBase32Alphabet"
    and deeper: "searchReaches f fence mode maxHashes depth (c @ [ch]) path"
    by simp_all
  from "3.prems"(1) obtain hashes where
    before: "loopChildren ?call maxHashes c [] ?before = Some (Inr hashes)"
    by (auto split: option.splits sum.splits)
  from "3.prems"(2) have "computeVariableHashes (depth - length path) f fence mode
      ((c @ [ch]) @ path) maxHashes = Some (Inl err)" by simp
  with deeper have child: "?call (c @ [ch]) = Some (Inl err)" by (rule "3.IH")
  from alphabet_split [OF sym] obtain rest where
    "geohashBase32Alphabet = ?before @ [ch] # rest" by blast
  then have "loopChildren ?call maxHashes c [] geohashBase32Alphabet
      = loopChildren ?call maxHashes c [] (?before @ [ch] # rest)" by simp
  also have "\<dots> = Some (Inl err)" using before child by (rule loopChildren_child_fails)
  finally show ?case using sub by simp
qed

lemma Fill_error:
  "computeVariableHashes depth f fence mode [] maxHashes = Some (Inl err) \<Longrightarrow>
   Fill depth f fence mode maxHashes = Some (Inl err)"
  by (simp add: Fill_def)

text \<open>
  C6. When the search from the root calls the predicates on a cell \<open>c\<close> and one of them
  fails there (\<^verbatim>\<open>Contains\<close> returns an error, or \<^verbatim>\<open>Contains\<close> is false and
  \<^verbatim>\<open>Intersects\<close> returns an error), \<^verbatim>\<open>Fill\<close> returns that error, unchanged, and no list:
  lines 140 and 148 return it, each enclosing loop returns it at line 169 before it
  looks at any later symbol, and \<^verbatim>\<open>Fill\<close> returns it at line 87. Every \<^verbatim>\<open>return\<close> of the
  source that carries an error carries the slice \<^verbatim>\<open>nil\<close>, which the sum type records.
\<close>

theorem Fill_predicate_error:
  assumes "searchReaches f fence mode maxHashes depth [] c"
    and "container f fence c = Inl e \<or>
         (container f fence c = Inr False \<and> intersector f fence c = Inl e)"
  shows "Fill depth f fence mode maxHashes = Some (Inl (Predicate e))"
proof -
  from assms(1) have "length c < depth" by (rule searchReaches_depth)
  then obtain k where k: "depth - length c = Suc k" by (cases "depth - length c") auto
  from assms(2) have "computeVariableHashes (Suc k) f fence mode c maxHashes
      = Some (Inl (Predicate e))" by auto
  with k have "computeVariableHashes (depth - length c) f fence mode ([] @ c) maxHashes
      = Some (Inl (Predicate e))" by simp
  with assms(1) have "computeVariableHashes depth f fence mode [] maxHashes
      = Some (Inl (Predicate e))" by (rule searchReaches_error)
  then show ?thesis by (rule Fill_error)
qed

theorem Fill_predicate_error_witness:
  "Fill (Suc (Suc 0)) \<lparr>maxPrecision = 1, fixedPrecision = False,
       container = failingAt ''b'' ''malformed polygon'' [''9''],
       intersector = tablePredicate [[], ''9'', ''b'']\<rparr> () FillIntersects 5
     = Some (Inl (Predicate ''malformed polygon'')) \<and>
   Fill (Suc (Suc 0)) \<lparr>maxPrecision = 1, fixedPrecision = True,
       container = tablePredicate [''9''],
       intersector = failingAt ''c'' ''no bounds'' [[], ''9'', ''b'']\<rparr> () FillContains 5
     = Some (Inl (Predicate ''no bounds''))"
proof -
  let ?f = "\<lparr>maxPrecision = 1, fixedPrecision = False,
       container = failingAt ''b'' ''malformed polygon'' [''9''],
       intersector = tablePredicate [[], ''9'', ''b'']\<rparr>"
  let ?g = "\<lparr>maxPrecision = 1, fixedPrecision = True,
       container = tablePredicate [''9''],
       intersector = failingAt ''c'' ''no bounds'' [[], ''9'', ''b'']\<rparr>"
  have reach: "searchReaches ?f () FillIntersects 5 (Suc (Suc 0)) [] ''b''"
    by (simp add: failingAt_def tablePredicate_def geohashBase32Alphabet_def)
  have fails: "container ?f () ''b'' = Inl ''malformed polygon'' \<or>
      (container ?f () ''b'' = Inr False \<and> intersector ?f () ''b'' = Inl ''malformed polygon'')"
    by (simp add: failingAt_def)
  have reach': "searchReaches ?g () FillContains 5 (Suc (Suc 0)) [] ''c''"
    by (simp add: failingAt_def tablePredicate_def geohashBase32Alphabet_def
        FillContains_def FillIntersects_def)
  have fails': "container ?g () ''c'' = Inl ''no bounds'' \<or>
      (container ?g () ''c'' = Inr False \<and> intersector ?g () ''c'' = Inl ''no bounds'')"
    by (simp add: failingAt_def tablePredicate_def)
  from Fill_predicate_error [OF reach fails] Fill_predicate_error [OF reach' fails']
  show ?thesis ..
qed

end
